theory Spec2Isabelle
  imports Main "HOL-Library.Word"
begin

unbundle bit_operations_syntax

section \<open>Bytes and their two renderings\<close>

text \<open>
  The script \<^verbatim>\<open>serial-monitor.py\<close> prints every chunk it reads with
  \<^verbatim>\<open>print(f"Received: {data.hex()} | ASCII: {data}")\<close>.
  \<^verbatim>\<open>data\<close> is a Python \<^verbatim>\<open>bytes\<close> object: a list of octets.
  \<^verbatim>\<open>data.hex()\<close> writes two digits of \<^verbatim>\<open>"0123456789abcdef"\<close> per octet,
  high nibble first. \<^verbatim>\<open>{data}\<close> in an f-string is \<^verbatim>\<open>str(data)\<close>, which for
  bytes is the literal form \<^verbatim>\<open>b'...'\<close> with escapes, quoted with a double quote when
  the data holds a single quote and no double quote.
\<close>

type_synonym byte = "8 word"
type_synonym bytes = "byte list"

definition Py_hexdigits :: string where
  "Py_hexdigits = ''0123456789abcdef''"

definition hexdigit :: "byte \<Rightarrow> char" where
  "hexdigit n = Py_hexdigits ! unat n"

definition byte_hex :: "byte \<Rightarrow> string" where
  "byte_hex c = [hexdigit (drop_bit 4 c), hexdigit (c AND 0x0f)]"

definition bytes_hex :: "bytes \<Rightarrow> string" where
  "bytes_hex d = concat (map byte_hex d)"

definition chr_of_byte :: "byte \<Rightarrow> char" where
  "chr_of_byte c = char_of (unat c)"

definition squote :: byte where "squote = 0x27"
definition dquote :: byte where "dquote = 0x22"
definition backslash :: byte where "backslash = 0x5c"

definition repr_quote :: "bytes \<Rightarrow> byte" where
  "repr_quote d = (if squote \<in> set d \<and> dquote \<notin> set d then dquote else squote)"

definition repr_byte :: "byte \<Rightarrow> byte \<Rightarrow> string" where
  "repr_byte quote c =
     (if c = quote \<or> c = backslash then [chr_of_byte backslash, chr_of_byte c]
      else if c = 0x09 then [chr_of_byte backslash, CHR ''t'']
      else if c = 0x0a then [chr_of_byte backslash, CHR ''n'']
      else if c = 0x0d then [chr_of_byte backslash, CHR ''r'']
      else if c < 0x20 \<or> c \<ge> 0x7f then
        [chr_of_byte backslash, CHR ''x'', hexdigit (drop_bit 4 (c AND 0xf0)), hexdigit (c AND 0x0f)]
      else [chr_of_byte c])"

definition bytes_repr :: "bytes \<Rightarrow> string" where
  "bytes_repr d =
     (let quote = repr_quote d
      in [CHR ''b'', chr_of_byte quote] @ concat (map (repr_byte quote) d) @ [chr_of_byte quote])"

definition received_line :: "bytes \<Rightarrow> string" where
  "received_line data = ''Received: '' @ bytes_hex data @ '' | ASCII: '' @ bytes_repr data"

section \<open>The device, the clock and the trace\<close>

text \<open>
  Opening the port, \<^verbatim>\<open>port.in_waiting\<close> and \<^verbatim>\<open>port.read\<close> are calls into the serial
  driver; each of them can raise (pySerial's \<^verbatim>\<open>SerialException\<close>, the specification's
  \<^verbatim>\<open>DeviceError\<close>). The script catches nothing, so a raise ends the run.
\<close>

datatype error = DeviceError

text \<open>
  What the device answers during one iteration of the loop. The loop body evaluates
  \<^verbatim>\<open>port.in_waiting\<close> twice: once in the test \<^verbatim>\<open>port.in_waiting > 0\<close>
  and once more as the argument of \<^verbatim>\<open>port.read\<close>. \<open>read_result\<close> is what the
  driver has to give to the read (the read returns at most the requested number of
  octets of it) and \<open>read_ms\<close> how long the driver lets the read wait, in
  milliseconds.
\<close>

record tick =
  in_waiting1 :: "error + nat"
  in_waiting2 :: "error + nat"
  read_result :: "error + bytes"
  read_ms :: nat

record env =
  open_ok :: bool
  t0 :: int
  device :: "nat \<Rightarrow> tick"
  rounds_short :: "int \<Rightarrow> int \<Rightarrow> bool"

datatype event =
    EvOpen "error + unit"
  | EvPrint string
  | EvInWaiting "error + nat"
  | EvRead nat "error + bytes"
  | EvSleep nat
  | EvClose

text \<open>
  The state of a run: the wall clock in milliseconds (\<^verbatim>\<open>time.time()\<close> reads it),
  the number of loop iterations started, and everything the program did so far.
\<close>

record state =
  clock :: int
  polls :: nat
  trace :: "event list"

definition emit :: "event \<Rightarrow> state \<Rightarrow> state" where
  "emit ev s = s\<lparr>trace := trace s @ [ev]\<rparr>"

definition elapse :: "nat \<Rightarrow> state \<Rightarrow> state" where
  "elapse ms s = s\<lparr>clock := clock s + int ms\<rparr>"

definition print_py :: "string \<Rightarrow> state \<Rightarrow> state" where
  "print_py text s = emit (EvPrint text) s"

definition sleep :: "nat \<Rightarrow> state \<Rightarrow> state" where
  "sleep ms s = elapse ms (emit (EvSleep ms) s)"

text \<open>The constants of the script: \<^verbatim>\<open>timeout=2\<close>, \<^verbatim>\<open>time.sleep(0.1)\<close> and the
  bound \<^verbatim>\<open>10\<close> of the loop, in milliseconds.\<close>

definition read_timeout :: nat where "read_timeout = 2000"
definition poll_interval :: nat where "poll_interval = 100"
definition capture_window :: int where "capture_window = 10000"

section \<open>The program\<close>

text \<open>
  One iteration of
  \<^verbatim>\<open>
    if port.in_waiting > 0:
        data = port.read(port.in_waiting)
        print(f"Received: {data.hex()} | ASCII: {data}")
    time.sleep(0.1)
  \<close>
  A read of \<open>m\<close> octets returns at most \<open>m\<close> octets and waits no longer than the
  timeout the port was opened with.
\<close>

definition port_read :: "tick \<Rightarrow> nat \<Rightarrow> state \<Rightarrow> (error + bytes) \<times> state" where
  "port_read t m s =
     (let s' = elapse (min (read_ms t) read_timeout) s
      in case read_result t of
           Inl e \<Rightarrow> (Inl e, emit (EvRead m (Inl e)) s')
         | Inr bs \<Rightarrow> (Inr (take m bs), emit (EvRead m (Inr (take m bs))) s'))"

definition poll :: "(nat \<Rightarrow> tick) \<Rightarrow> state \<Rightarrow> (error + unit) \<times> state" where
  "poll dev s =
     (let t = dev (polls s); s0 = s\<lparr>polls := Suc (polls s)\<rparr>
      in case in_waiting1 t of
           Inl e \<Rightarrow> (Inl e, emit (EvInWaiting (Inl e)) s0)
         | Inr n \<Rightarrow>
             let s1 = emit (EvInWaiting (Inr n)) s0
             in if n > 0 then
                  (case in_waiting2 t of
                     Inl e \<Rightarrow> (Inl e, emit (EvInWaiting (Inl e)) s1)
                   | Inr m \<Rightarrow>
                       (case port_read t m (emit (EvInWaiting (Inr m)) s1) of
                          (Inl e, s2) \<Rightarrow> (Inl e, s2)
                        | (Inr data, s2) \<Rightarrow>
                            (Inr (), sleep poll_interval (print_py (received_line data) s2))))
                else (Inr (), sleep poll_interval s1))"

lemma poll_clock: "poll dev s = (Inr u, s') \<Longrightarrow> clock s + int poll_interval \<le> clock s'"
  by (auto simp: poll_def port_read_def sleep_def elapse_def emit_def print_py_def Let_def
           split: sum.splits if_splits prod.splits)

text \<open>
  The test of \<^verbatim>\<open>while time.time() - start < W: ...\<close>, with \<open>W\<close> the capture
  window. The script computes it on floating-point seconds, and two clock readings
  that lie exactly \<open>W\<close> apart need not lie \<open>W\<close> apart as floating-point numbers:
  \<^verbatim>\<open>16.016 - 6.016\<close> evaluates to \<^verbatim>\<open>9.999999999999998\<close>, which is less than
  \<^verbatim>\<open>10\<close>, so a script started at 6.016 s runs one more iteration. Whether the
  difference of two readings comes out short depends on their binary representation;
  \<open>rounds_short\<close> of the environment tells it for each pair of readings (the start
  and the present one). A difference that misses \<open>W\<close> by a millisecond or more is far
  outside the rounding error of clock readings in seconds, so there the test is exact.
\<close>

definition in_window :: "(int \<Rightarrow> int \<Rightarrow> bool) \<Rightarrow> int \<Rightarrow> int \<Rightarrow> int \<Rightarrow> bool" where
  "in_window short W start now =
     (now - start < W \<or> (now - start = W \<and> short start now))"

function capture_loop ::
  "(int \<Rightarrow> int \<Rightarrow> bool) \<Rightarrow> int \<Rightarrow> (nat \<Rightarrow> tick) \<Rightarrow> int \<Rightarrow> state \<Rightarrow> (error + unit) \<times> state" where
  "capture_loop short W dev start s =
     (if in_window short W start (clock s) then
        (case poll dev s of
           (Inl e, s') \<Rightarrow> (Inl e, s')
         | (Inr u, s') \<Rightarrow> capture_loop short W dev start s')
      else (Inr (), s))"
  by pat_completeness auto
termination
proof (relation "measure (\<lambda>(short, W, dev, start, s). nat (W + 1 - (clock s - start)))")
  show "wf (measure (\<lambda>(short, W, dev, start, s). nat (W + 1 - (clock s - start))))"
    by simp
next
  fix short :: "int \<Rightarrow> int \<Rightarrow> bool" and W :: int and dev :: "nat \<Rightarrow> tick" and start :: int
    and s s' :: state and x :: "error + unit" and u :: unit
  assume run: "in_window short W start (clock s)" and x: "(x, s') = poll dev s" "x = Inr u"
  from x have "poll dev s = (Inr u, s')" by simp
  from poll_clock [OF this] have "clock s < clock s'"
    by (simp add: poll_interval_def)
  moreover from run have "clock s - start \<le> W"
    by (auto simp: in_window_def)
  ultimately show "((short, W, dev, start, s'), (short, W, dev, start, s))
      \<in> measure (\<lambda>(short, W, dev, start, s). nat (W + 1 - (clock s - start)))"
    by simp
qed

declare capture_loop.simps [simp del]

text \<open>
  The whole script, with the capture window as a parameter. A failing
  \<^verbatim>\<open>serial.Serial(...)\<close> raises before anything is printed.
\<close>

definition monitor :: "int \<Rightarrow> env \<Rightarrow> (error + unit) \<times> state" where
  "monitor W e =
     (let s = \<lparr>clock = t0 e, polls = 0, trace = []\<rparr>
      in if \<not> open_ok e then (Inl DeviceError, emit (EvOpen (Inl DeviceError)) s)
         else
           let s1 = emit (EvOpen (Inr ())) s;
               s2 = print_py ''Monitoring /dev/ttyUSB0 for 10 seconds...'' s1;
               s3 = print_py (''Waiting for any data...'' @ [CHR 0x0A]) s2;
               start = clock s3
           in case capture_loop (rounds_short e) W (device e) start s3 of
                (Inl err, s4) \<Rightarrow> (Inl err, s4)
              | (Inr u, s4) \<Rightarrow> (Inr (), emit EvClose (print_py (CHR 0x0A # ''Done'') s4)))"

definition main :: "env \<Rightarrow> (error + unit) \<times> state" where
  "main e = monitor capture_window e"

section \<open>Reading the trace\<close>

fun printed :: "event list \<Rightarrow> string list" where
  "printed [] = []"
| "printed (EvPrint text # evs) = text # printed evs"
| "printed (_ # evs) = printed evs"

text \<open>The chunks the device delivered: the results of the reads that returned.\<close>

fun chunks :: "event list \<Rightarrow> bytes list" where
  "chunks [] = []"
| "chunks (EvRead m (Inr data) # evs) = data # chunks evs"
| "chunks (_ # evs) = chunks evs"

text \<open>The number of octets each read asked for.\<close>

fun requests :: "event list \<Rightarrow> nat list" where
  "requests [] = []"
| "requests (EvRead m r # evs) = m # requests evs"
| "requests (_ # evs) = requests evs"

fun sleeps :: "event list \<Rightarrow> nat list" where
  "sleeps [] = []"
| "sleeps (EvSleep ms # evs) = ms # sleeps evs"
| "sleeps (_ # evs) = sleeps evs"

definition closes :: "event list \<Rightarrow> nat" where
  "closes evs = length (filter (\<lambda>ev. ev = EvClose) evs)"

definition is_received :: "string \<Rightarrow> bool" where
  "is_received line = (take 10 line = ''Received: '')"

definition received_lines :: "string list \<Rightarrow> string list" where
  "received_lines out = filter is_received out"

text \<open>What a finished run wrote to the console, in order, one entry per
  \<^verbatim>\<open>print\<close> call, and the chunks it was given.\<close>

definition stdout :: "(error + unit) \<times> state \<Rightarrow> string list" where
  "stdout run = printed (trace (snd run))"

definition delivered :: "(error + unit) \<times> state \<Rightarrow> bytes list" where
  "delivered run = chunks (trace (snd run))"

text \<open>
  The reader's side of a printed line, which the script does not contain: the
  hexadecimal field is what stands between the prefix and the next blank, and it is
  decoded two digits at a time, as Python's \<^verbatim>\<open>bytes.fromhex\<close> decodes a string
  without blanks.
\<close>

definition hex_field :: "string \<Rightarrow> string" where
  "hex_field line = takeWhile (\<lambda>c. c \<noteq> CHR '' '') (drop 10 line)"

definition hexval :: "char \<Rightarrow> nat option" where
  "hexval c =
     (let n = (of_char c :: nat)
      in if 48 \<le> n \<and> n \<le> 57 then Some (n - 48)
         else if 97 \<le> n \<and> n \<le> 102 then Some (n - 87)
         else if 65 \<le> n \<and> n \<le> 70 then Some (n - 55)
         else None)"

fun bytes_fromhex :: "string \<Rightarrow> bytes option" where
  "bytes_fromhex [] = Some []"
| "bytes_fromhex [c] = None"
| "bytes_fromhex (a # b # rest) =
     (case (hexval a, hexval b, bytes_fromhex rest) of
        (Some h, Some l, Some bs) \<Rightarrow> Some (word_of_nat (16 * h + l) # bs)
      | _ \<Rightarrow> None)"

text \<open>The printable characters of ASCII, blank to tilde.\<close>

definition printable :: "char \<Rightarrow> bool" where
  "printable c = (32 \<le> (of_char c :: nat) \<and> (of_char c :: nat) < 127)"

text \<open>
  The reader's side of the textual field, which the script does not contain either:
  the field is what follows the hexadecimal field and the separator, and it is read as
  Python reads a bytes literal: \<^verbatim>\<open>b\<close>, an opening quote, then octets that stand
  for themselves or are written as one of the escapes \<^verbatim>\<open>\t \n \r \\ \' \" \xHH\<close>,
  up to the closing quote, which must be the last character.
\<close>

definition byte_of_chr :: "char \<Rightarrow> byte" where
  "byte_of_chr c = word_of_nat (of_char c)"

fun literal_body :: "char \<Rightarrow> string \<Rightarrow> bytes option" where
  "literal_body q [] = None"
| "literal_body q (c # cs) =
     (if c = q then (if cs = [] then Some [] else None)
      else if c = CHR 0x5C then
        (case cs of
           [] \<Rightarrow> None
         | e # rest \<Rightarrow>
             if e = CHR ''t'' then map_option ((#) 0x09) (literal_body q rest)
             else if e = CHR ''n'' then map_option ((#) 0x0a) (literal_body q rest)
             else if e = CHR ''r'' then map_option ((#) 0x0d) (literal_body q rest)
             else if e = CHR 0x5C \<or> e = CHR 0x27 \<or> e = CHR 0x22 then
               map_option ((#) (byte_of_chr e)) (literal_body q rest)
             else if e = CHR ''x'' then
               (case rest of
                  h # l # rest' \<Rightarrow>
                    (case (hexval h, hexval l) of
                       (Some a, Some b) \<Rightarrow>
                         map_option ((#) (word_of_nat (16 * a + b))) (literal_body q rest')
                     | _ \<Rightarrow> None)
                | _ \<Rightarrow> None)
             else None)
      else if printable c then map_option ((#) (byte_of_chr c)) (literal_body q cs)
      else None)"

definition bytes_literal :: "string \<Rightarrow> bytes option" where
  "bytes_literal s =
     (case s of
        b # q # rest \<Rightarrow>
          if b = CHR ''b'' \<and> (q = CHR 0x27 \<or> q = CHR 0x22) then literal_body q rest else None
      | _ \<Rightarrow> None)"

definition text_field :: "string \<Rightarrow> string" where
  "text_field line = drop (length (hex_field line) + 20) line"

text \<open>The state in which the loop is entered: the port is open, the two header lines
  are printed, no time has passed.\<close>

definition opened :: "env \<Rightarrow> state" where
  "opened e = \<lparr>clock = t0 e, polls = 0, trace = [EvOpen (Inr ()),
      EvPrint ''Monitoring /dev/ttyUSB0 for 10 seconds...'',
      EvPrint (''Waiting for any data...'' @ [CHR 0x0A])]\<rparr>"

section \<open>Example devices\<close>

text \<open>A tick on which nothing is buffered, a tick on which a whole chunk is buffered and
  handed over at once, and the device that plays a list of ticks and is silent afterwards.\<close>

definition silent :: tick where
  "silent = \<lparr>in_waiting1 = Inr 0, in_waiting2 = Inr 0, read_result = Inr [], read_ms = 0\<rparr>"

definition burst :: "bytes \<Rightarrow> tick" where
  "burst bs = \<lparr>in_waiting1 = Inr (length bs), in_waiting2 = Inr (length bs),
                read_result = Inr bs, read_ms = 0\<rparr>"

definition script :: "tick list \<Rightarrow> env" where
  "script ts = \<lparr>open_ok = True, t0 = 0,
                 device = (\<lambda>i. if i < length ts then ts ! i else silent),
                 rounds_short = (\<lambda>start now. False)\<rparr>"

text \<open>A tick on which the read raises (the adapter was pulled out), a tick on which
  more octets arrive between the test and the read, and a tick on which the driver
  reports \<open>n\<close> octets but hands none over before the read times out.\<close>

definition unplugged :: tick where
  "unplugged = \<lparr>in_waiting1 = Inr 1, in_waiting2 = Inr 1,
                 read_result = Inl DeviceError, read_ms = 0\<rparr>"

definition racing :: "bytes \<Rightarrow> tick" where
  "racing bs = \<lparr>in_waiting1 = Inr 1, in_waiting2 = Inr (length bs),
                 read_result = Inr bs, read_ms = 30\<rparr>"

definition stale :: "nat \<Rightarrow> tick" where
  "stale n = \<lparr>in_waiting1 = Inr n, in_waiting2 = Inr n, read_result = Inr [], read_ms = 2000\<rparr>"

text \<open>A tick is faithful when, if the test finds octets buffered, the second query
  finds some too and the device hands at least one octet to the read.\<close>

definition faithful :: "tick \<Rightarrow> bool" where
  "faithful t =
     (case (in_waiting1 t, in_waiting2 t, read_result t) of
        (Inr n, Inr m, Inr bs) \<Rightarrow> n = 0 \<or> (0 < m \<and> bs \<noteq> [])
      | _ \<Rightarrow> True)"

text \<open>A silent device and a script started when the clock reads 6.016 s: ten seconds
  later the clock reads 16.016 s, and the floating-point difference of the two
  readings is less than ten.\<close>

definition late_start :: env where
  "late_start = (script [])\<lparr>t0 := 6016,
     rounds_short := (\<lambda>start now. start = 6016 \<and> now = 16016)\<rparr>"

section \<open>Hexadecimal digits\<close>

lemma hexval_digit: "n < 16 \<Longrightarrow> hexval (Py_hexdigits ! n) = Some n"
proof -
  have "list_all (\<lambda>k. hexval (Py_hexdigits ! k) = Some k) [0..<16]"
    by code_simp
  moreover assume "n < 16"
  ultimately show ?thesis
    by (simp add: list_all_iff)
qed

lemma printable_digit: "n < 16 \<Longrightarrow> printable (Py_hexdigits ! n)"
proof -
  have "list_all (\<lambda>k. printable (Py_hexdigits ! k)) [0..<16]"
    by code_simp
  moreover assume "n < 16"
  ultimately show ?thesis
    by (simp add: list_all_iff)
qed

lemma digit_lower: "n < 16 \<Longrightarrow> Py_hexdigits ! n \<in> set Py_hexdigits"
  by (rule nth_mem) (simp add: Py_hexdigits_def)

lemma unat_byte: "unat (c :: byte) < 256"
  using unsigned_less [of c] by simp

lemma unat_hi: "unat (drop_bit 4 (c :: byte)) = unat c div 16"
  by (simp add: drop_bit_eq_div unat_div)

lemma unat_lo: "unat ((c :: byte) AND 0x0f) = unat c mod 16"
proof -
  have "(0x0f :: byte) = mask 4" by (simp add: mask_eq_exp_minus_1)
  then have "c AND 0x0f = take_bit 4 c"
    by (simp only: take_bit_eq_mask)
  then show ?thesis
    by (simp add: take_bit_eq_mod unat_mod)
qed

lemma hi_less: "unat (drop_bit 4 (c :: byte)) < 16"
  using unat_byte [of c] by (simp add: unat_hi)

lemma lo_less: "unat ((c :: byte) AND 0x0f) < 16"
  by (simp add: unat_lo)

lemma byte_split: "word_of_nat (16 * unat (drop_bit 4 c) + unat (c AND 0x0f)) = (c :: byte)"
  by (simp add: unat_hi unat_lo)

lemma fromhex_byte_hex:
  "bytes_fromhex (byte_hex c @ rest) = map_option ((#) c) (bytes_fromhex rest)"
proof -
  have "hexval (hexdigit (drop_bit 4 c)) = Some (unat (drop_bit 4 c))"
    and "hexval (hexdigit (c AND 0x0f)) = Some (unat (c AND 0x0f))"
    unfolding hexdigit_def by (rule hexval_digit, rule hi_less, rule hexval_digit, rule lo_less)
  then show ?thesis
    by (cases "bytes_fromhex rest") (simp_all only: byte_hex_def append.simps bytes_fromhex.simps
          byte_split option.case prod.case option.map)
qed

lemma fromhex_hex: "bytes_fromhex (bytes_hex d) = Some d"
  by (induction d) (simp_all add: bytes_hex_def fromhex_byte_hex)

lemma hex_digits: "set (bytes_hex d) \<subseteq> set Py_hexdigits"
  by (induction d) (auto simp: bytes_hex_def byte_hex_def hexdigit_def digit_lower hi_less lo_less)

lemma hex_length: "length (bytes_hex d) = 2 * length d"
  by (induction d) (simp_all add: bytes_hex_def byte_hex_def)

lemma hex_no_blank: "CHR '' '' \<notin> set (bytes_hex d)"
  using hex_digits [of d] by (auto simp: Py_hexdigits_def)

lemma hex_field_received: "hex_field (received_line d) = bytes_hex d"
  using hex_no_blank [of d]
  by (simp add: hex_field_def received_line_def takeWhile_append)

lemma is_received_line: "is_received (received_line d)"
  by (simp add: is_received_def received_line_def)

lemma received_lines_map: "received_lines (map received_line cs) = map received_line cs"
  by (induction cs) (simp_all add: received_lines_def is_received_line)

section \<open>The trace of the loop\<close>

lemma printed_append: "printed (xs @ ys) = printed xs @ printed ys"
  by (induction xs rule: printed.induct) simp_all

lemma chunks_append: "chunks (xs @ ys) = chunks xs @ chunks ys"
  by (induction xs rule: chunks.induct) simp_all

lemma requests_append: "requests (xs @ ys) = requests xs @ requests ys"
  by (induction xs rule: requests.induct) simp_all

lemma sleeps_append: "sleeps (xs @ ys) = sleeps xs @ sleeps ys"
  by (induction xs rule: sleeps.induct) simp_all

lemma closes_append: "closes (xs @ ys) = closes xs + closes ys"
  by (simp add: closes_def)


lemmas run_defs = port_read_def emit_def elapse_def sleep_def print_py_def Let_def

lemma capture_loop_rule:
  assumes run: "capture_loop short W dev start s = (r, s')"
    and stop: "\<And>s. \<not> in_window short W start (clock s) \<Longrightarrow> Q s (Inr ()) s"
    and fail: "\<And>s e s1. in_window short W start (clock s) \<Longrightarrow> poll dev s = (Inl e, s1) \<Longrightarrow> Q s (Inl e) s1"
    and step: "\<And>s s1 r s'. in_window short W start (clock s) \<Longrightarrow> poll dev s = (Inr (), s1)
                 \<Longrightarrow> capture_loop short W dev start s1 = (r, s') \<Longrightarrow> Q s1 r s' \<Longrightarrow> Q s r s'"
  shows "Q s r s'"
  using assms
proof (induction short W dev start s rule: capture_loop.induct)
  case (1 short W dev start s)
  note stop = "1.prems"(2) and fail = "1.prems"(3) and step = "1.prems"(4)
  show ?case
  proof (cases "in_window short W start (clock s)")
    case False
    with "1.prems"(1) have "r = Inr ()" "s' = s"
      by (simp_all add: capture_loop.simps)
    with stop [OF False] show ?thesis by simp
  next
    case True
    obtain r1 s1 where p: "poll dev s = (r1, s1)"
      by force
    show ?thesis
    proof (cases r1)
      case (Inl e)
      with True p "1.prems"(1) have "r = Inl e" "s' = s1"
        by (simp_all add: capture_loop.simps)
      with fail [OF True] p Inl show ?thesis by simp
    next
      case (Inr u)
      with True p "1.prems"(1) have rest: "capture_loop short W dev start s1 = (r, s')"
        by (simp add: capture_loop.simps)
      from p Inr have p': "poll dev s = (Inr (), s1)" by simp
      have "Q s1 r s'"
      proof (rule "1.IH" [OF True p [symmetric] Inr rest])
        show "\<And>s. \<not> in_window short W start (clock s) \<Longrightarrow> Q s (Inr ()) s"
          by (rule stop)
        show "\<And>s e s1. in_window short W start (clock s) \<Longrightarrow> poll dev s = (Inl e, s1) \<Longrightarrow> Q s (Inl e) s1"
          by (rule fail)
        show "\<And>s s1 r s'. in_window short W start (clock s) \<Longrightarrow> poll dev s = (Inr (), s1)
                 \<Longrightarrow> capture_loop short W dev start s1 = (r, s') \<Longrightarrow> Q s1 r s' \<Longrightarrow> Q s r s'"
          by (rule step)
      qed
      with step [OF True p' rest] show ?thesis .
    qed
  qed
qed

lemma poll_output:
  "poll dev s = (r, s') \<Longrightarrow>
     \<exists>evs. trace s' = trace s @ evs \<and> printed evs = map received_line (chunks evs)
       \<and> closes evs = 0"
  by (auto simp: poll_def run_defs closes_def split: sum.splits if_splits)

lemma loop_output:
  "capture_loop short W dev start s = (r, s') \<Longrightarrow>
     \<exists>evs. trace s' = trace s @ evs \<and> printed evs = map received_line (chunks evs)
       \<and> closes evs = 0"
proof (erule capture_loop_rule, goal_cases)
  case (1 s)
  show ?case by (simp add: closes_def)
next
  case (2 s e s1)
  then show ?case by (simp add: poll_output)
next
  case (3 s s1 r s')
  from poll_output [OF 3(2)] obtain evs1 where
    e1: "trace s1 = trace s @ evs1" "printed evs1 = map received_line (chunks evs1)" "closes evs1 = 0"
    by blast
  from 3(4) obtain evs2 where
    e2: "trace s' = trace s1 @ evs2" "printed evs2 = map received_line (chunks evs2)" "closes evs2 = 0"
    by blast
  from e1 e2 show ?case
    by (intro exI [of _ "evs1 @ evs2"]) (simp add: printed_append chunks_append closes_append)
qed

lemma monitor_refused:
  "\<not> open_ok e \<Longrightarrow>
     monitor W e = (Inl DeviceError, \<lparr>clock = t0 e, polls = 0, trace = [EvOpen (Inl DeviceError)]\<rparr>)"
  by (simp add: monitor_def emit_def)

lemma monitor_trace:
  assumes "open_ok e"
  shows "\<exists>evs. trace (snd (monitor W e)) =
           [EvOpen (Inr ()), EvPrint ''Monitoring /dev/ttyUSB0 for 10 seconds...'',
            EvPrint (''Waiting for any data...'' @ [CHR 0x0A])] @ evs
           @ (if fst (monitor W e) = Inr () then [EvPrint (CHR 0x0A # ''Done''), EvClose] else [])
         \<and> printed evs = map received_line (chunks evs) \<and> closes evs = 0"
proof -
  define s3 where "s3 = \<lparr>clock = t0 e, polls = 0, trace = [EvOpen (Inr ()),
      EvPrint ''Monitoring /dev/ttyUSB0 for 10 seconds...'',
      EvPrint (''Waiting for any data...'' @ [CHR 0x0A])]\<rparr>"
  obtain r s4 where loop: "capture_loop (rounds_short e) W (device e) (clock s3) s3 = (r, s4)"
    by force
  from loop_output [OF loop] obtain evs where
    evs: "trace s4 = trace s3 @ evs" "printed evs = map received_line (chunks evs)" "closes evs = 0"
    by blast
  have "monitor W e =
      (case r of Inl err \<Rightarrow> (Inl err, s4)
       | Inr u \<Rightarrow> (Inr (), emit EvClose (print_py (CHR 0x0A # ''Done'') s4)))"
    using assms loop by (simp add: monitor_def run_defs s3_def split: sum.splits)
  with evs show ?thesis
    by (cases r) (auto simp: run_defs s3_def)
qed

lemma monitor_stdout:
  "open_ok e \<Longrightarrow> stdout (monitor W e) =
     [''Monitoring /dev/ttyUSB0 for 10 seconds...'', ''Waiting for any data...'' @ [CHR 0x0A]]
     @ map received_line (delivered (monitor W e))
     @ (if fst (monitor W e) = Inr () then [CHR 0x0A # ''Done''] else [])"
  using monitor_trace [of e W]
  by (auto simp: stdout_def delivered_def printed_append chunks_append)

lemma monitor_received:
  "received_lines (stdout (monitor W e)) = map received_line (delivered (monitor W e))"
proof (cases "open_ok e")
  case True
  from monitor_stdout [OF True, of W] show ?thesis
    using received_lines_map [of "delivered (monitor W e)"]
    by (simp add: received_lines_def is_received_def)
next
  case False
  from monitor_refused [OF False, of W] show ?thesis
    by (simp add: stdout_def delivered_def received_lines_def)
qed

lemma monitor_closes:
  "closes (trace (snd (monitor W e))) = (if fst (monitor W e) = Inr () then 1 else 0)"
proof (cases "open_ok e")
  case True
  from monitor_trace [OF True, of W] show ?thesis
    by (auto simp: closes_def)
next
  case False
  from monitor_refused [OF False, of W] show ?thesis
    by (simp add: closes_def)
qed

lemma monitor_last:
  "fst (monitor W e) = Inr () \<Longrightarrow> last (trace (snd (monitor W e))) = EvClose"
proof (cases "open_ok e")
  case True
  assume "fst (monitor W e) = Inr ()"
  with monitor_trace [OF True, of W] show ?thesis
    by auto
next
  case False
  assume "fst (monitor W e) = Inr ()"
  with monitor_refused [OF False, of W] show ?thesis
    by simp
qed

lemma poll_silent:
  "in_waiting1 (dev (polls s)) = Inr 0 \<Longrightarrow>
     \<exists>s'. poll dev s = (Inr (), s') \<and> chunks (trace s') = chunks (trace s)"
  by (simp add: poll_def run_defs chunks_append)

lemma loop_silent:
  assumes quiet: "\<forall>i. in_waiting1 (dev i) = Inr 0"
    and run: "capture_loop short W dev start s = (r, s')"
  shows "r = Inr () \<and> chunks (trace s') = chunks (trace s)"
  using run
proof (rule capture_loop_rule, goal_cases)
  case (1 s)
  show ?case by simp
next
  case (2 s e s1)
  with poll_silent [of dev s] quiet show ?case by auto
next
  case (3 s s1 r s')
  with poll_silent [of dev s] quiet show ?case by auto
qed

section \<open>Sleeping\<close>

lemma monitor_loop:
  assumes "open_ok e"
  shows "monitor W e =
      (case capture_loop (rounds_short e) W (device e) (t0 e) (opened e) of
         (Inl err, s4) \<Rightarrow> (Inl err, s4)
       | (Inr u, s4) \<Rightarrow> (Inr (), emit EvClose (print_py (CHR 0x0A # ''Done'') s4)))"
  using assms by (simp add: monitor_def run_defs opened_def)

lemma poll_sleeps:
  "poll dev s = (r, s') \<Longrightarrow>
     polls s' = Suc (polls s)
     \<and> sleeps (trace s') = sleeps (trace s) @ (if r = Inr () then [100] else [])"
  by (auto simp: poll_def run_defs sleeps_append poll_interval_def split: sum.splits if_splits)

lemma loop_sleeps:
  "capture_loop short W dev start s = (r, s') \<Longrightarrow>
     \<exists>k. polls s' = polls s + k + (if r = Inr () then 0 else 1)
       \<and> sleeps (trace s') = sleeps (trace s) @ replicate k 100"
proof (erule capture_loop_rule, goal_cases)
  case (1 s)
  show ?case by simp
next
  case (2 s e s1)
  from poll_sleeps [OF 2(2)] show ?case by simp
next
  case (3 s s1 r s')
  from poll_sleeps [OF 3(2)] have p: "polls s1 = Suc (polls s)"
    "sleeps (trace s1) = sleeps (trace s) @ [100]" by simp_all
  from 3(4) obtain k where k: "polls s' = polls s1 + k + (if r = Inr () then 0 else 1)"
    "sleeps (trace s') = sleeps (trace s1) @ replicate k 100" by blast
  from p k show ?case
    by (intro exI [of _ "Suc k"]) simp
qed


lemma poll_last_sleep:
  "poll dev s = (Inr (), s') \<Longrightarrow> last (trace s') = EvSleep 100"
  by (auto simp: poll_def run_defs poll_interval_def split: sum.splits if_splits)

lemma monitor_sleeps:
  "\<exists>k. polls (snd (monitor W e)) = k + (if fst (monitor W e) = Inr () \<or> \<not> open_ok e then 0 else 1)
     \<and> sleeps (trace (snd (monitor W e))) = replicate k 100"
proof (cases "open_ok e")
  case False
  from monitor_refused [OF False, of W] False show ?thesis by simp
next
  case True
  obtain r s4 where loop: "capture_loop (rounds_short e) W (device e) (t0 e) (opened e) = (r, s4)"
    by force
  from loop_sleeps [OF loop] obtain k where
    k: "polls s4 = k + (if r = Inr () then 0 else 1)" "sleeps (trace s4) = replicate k 100"
    by (auto simp: opened_def)
  show ?thesis
  proof (cases r)
    case (Inl err)
    with loop k True show ?thesis
      by (simp add: monitor_loop)
  next
    case (Inr u)
    with loop k True show ?thesis
      by (simp add: monitor_loop run_defs sleeps_append)
  qed
qed

section \<open>Queries and reads of one iteration\<close>

lemma poll_first_query:
  "poll dev s = (r, s') \<Longrightarrow>
     take (Suc (length (trace s))) (trace s') = trace s @ [EvInWaiting (in_waiting1 (dev (polls s)))]"
  by (auto simp: poll_def run_defs split: sum.splits if_splits)

lemma poll_reads:
  "poll dev s = (r, s') \<Longrightarrow> in_waiting1 (dev (polls s)) = Inr n \<Longrightarrow>
   in_waiting2 (dev (polls s)) = Inr m \<Longrightarrow>
     requests (trace s') = requests (trace s) @ (if 0 < n then [m] else [])
     \<and> chunks (trace s') = chunks (trace s) @
          (if 0 < n then (case read_result (dev (polls s)) of Inr bs \<Rightarrow> [take m bs] | Inl err \<Rightarrow> [])
           else [])"
  by (auto simp: poll_def run_defs requests_append chunks_append split: sum.splits if_splits)

lemma poll_requests:
  "poll dev s = (r, s') \<Longrightarrow>
     requests (trace s') = requests (trace s)
     \<or> (\<exists>n m. in_waiting1 (dev (polls s)) = Inr n \<and> 0 < n \<and> in_waiting2 (dev (polls s)) = Inr m
           \<and> requests (trace s') = requests (trace s) @ [m])"
  by (auto simp: poll_def run_defs requests_append split: sum.splits if_splits)

lemma poll_chunks:
  "poll dev s = (r, s') \<Longrightarrow>
     chunks (trace s') = chunks (trace s)
     \<or> (\<exists>m bs. in_waiting2 (dev (polls s)) = Inr m \<and> read_result (dev (polls s)) = Inr bs
           \<and> chunks (trace s') = chunks (trace s) @ [take m bs]
           \<and> printed (trace s') = printed (trace s) @ [received_line (take m bs)])"
  by (auto simp: poll_def run_defs chunks_append printed_append split: sum.splits if_splits)

lemma poll_nonempty:
  "faithful (dev (polls s)) \<Longrightarrow> poll dev s = (r, s') \<Longrightarrow>
     \<exists>cs. chunks (trace s') = chunks (trace s) @ cs \<and> [] \<notin> set cs"
  by (auto simp: poll_def run_defs chunks_append faithful_def split: sum.splits if_splits)

lemma loop_nonempty:
  assumes f: "\<forall>i. faithful (dev i)"
    and run: "capture_loop short W dev start s = (r, s')"
  shows "\<exists>cs. chunks (trace s') = chunks (trace s) @ cs \<and> [] \<notin> set cs"
  using run
proof (rule capture_loop_rule, goal_cases)
  case (1 s)
  show ?case by simp
next
  case (2 s e s1)
  with poll_nonempty [of dev s] f show ?case by blast
next
  case (3 s s1 r s')
  from poll_nonempty [OF _ 3(2)] f obtain cs1 where
    c1: "chunks (trace s1) = chunks (trace s) @ cs1" "[] \<notin> set cs1" by blast
  from 3(4) obtain cs2 where
    c2: "chunks (trace s') = chunks (trace s1) @ cs2" "[] \<notin> set cs2" by blast
  from c1 c2 show ?case
    by (intro exI [of _ "cs1 @ cs2"]) simp
qed

lemma monitor_nonempty:
  assumes f: "\<forall>i. faithful (device e i)"
  shows "[] \<notin> set (delivered (monitor W e))"
proof (cases "open_ok e")
  case False
  from monitor_refused [OF False, of W] show ?thesis
    by (simp add: delivered_def)
next
  case True
  obtain r s4 where loop: "capture_loop (rounds_short e) W (device e) (t0 e) (opened e) = (r, s4)"
    by force
  from loop_nonempty [OF f loop] have "[] \<notin> set (chunks (trace s4))"
    by (auto simp: opened_def)
  with loop True show ?thesis
    by (cases r) (simp_all add: monitor_loop delivered_def run_defs chunks_append)
qed

section \<open>The clock\<close>

lemma poll_elapsed:
  "poll dev s = (r, s') \<Longrightarrow>
     clock s \<le> clock s'
     \<and> clock s' \<le> clock s + int (min (read_ms (dev (polls s))) read_timeout) + 100"
  by (auto simp: poll_def run_defs poll_interval_def split: sum.splits if_splits)

lemma loop_clock:
  assumes b: "\<forall>i. min (read_ms (dev i)) read_timeout \<le> b"
    and L: "\<forall>now. in_window short W start now \<longrightarrow> now - start \<le> L"
    and run: "capture_loop short W dev start s = (r, s')"
  shows "clock s' \<le> max (clock s) (start + L + int b + 100)
     \<and> (r = Inr () \<longrightarrow> start + W \<le> clock s')"
  using run
proof (rule capture_loop_rule, goal_cases)
  case (1 s)
  then show ?case by (simp add: in_window_def)
next
  case (2 s e s1)
  from b have "int (min (read_ms (dev (polls s))) read_timeout) \<le> int b"
    by simp
  with poll_elapsed [OF 2(2)] have "clock s1 \<le> clock s + int b + 100"
    by linarith
  moreover from L 2(1) have "clock s - start \<le> L"
    by blast
  ultimately show ?case by simp
next
  case (3 s s1 r s')
  from b have "int (min (read_ms (dev (polls s))) read_timeout) \<le> int b"
    by simp
  with poll_elapsed [OF 3(2)] have "clock s1 \<le> clock s + int b + 100"
    by linarith
  moreover from L 3(1) have "clock s - start \<le> L"
    by blast
  ultimately show ?case using 3(4) by simp
qed

lemma monitor_clock:
  assumes b: "\<forall>i. min (read_ms (device e i)) read_timeout \<le> b"
    and L: "\<forall>now. in_window (rounds_short e) W (t0 e) now \<longrightarrow> now - t0 e \<le> L"
    and pos: "0 \<le> L + int b + 100"
  shows "clock (snd (monitor W e)) - t0 e \<le> L + int b + 100
     \<and> (fst (monitor W e) = Inr () \<and> open_ok e \<longrightarrow> W \<le> clock (snd (monitor W e)) - t0 e)"
proof (cases "open_ok e")
  case False
  from monitor_refused [OF False, of W] pos False show ?thesis by simp
next
  case True
  obtain r s4 where loop: "capture_loop (rounds_short e) W (device e) (t0 e) (opened e) = (r, s4)"
    by force
  from loop_clock [OF b L loop] pos have
    c: "clock s4 - t0 e \<le> L + int b + 100" "r = Inr () \<longrightarrow> W \<le> clock s4 - t0 e"
    by (auto simp: opened_def)
  from loop True c show ?thesis
    by (cases r) (simp_all add: monitor_loop run_defs)
qed

section \<open>Printable output\<close>

lemma printable_chr: "\<not> (c < 0x20 \<or> c \<ge> 0x7f) \<Longrightarrow> printable (chr_of_byte c)"
  using unat_byte [of c]
  by (simp add: printable_def chr_of_byte_def word_less_nat_alt word_le_nat_alt)

lemma printable_hexdigit_hi: "printable (hexdigit (drop_bit 4 c))"
  unfolding hexdigit_def by (rule printable_digit) (rule hi_less)

lemma printable_hexdigit_lo: "printable (hexdigit (c AND 0x0f))"
  unfolding hexdigit_def by (rule printable_digit) (rule lo_less)

lemma printable_quote: "printable (chr_of_byte (repr_quote d))"
  by (simp add: repr_quote_def squote_def dquote_def printable_def chr_of_byte_def)

lemma printable_backslash: "printable (chr_of_byte backslash)"
  by (simp add: backslash_def printable_def chr_of_byte_def)

lemma printable_repr_byte:
  "printable (chr_of_byte quote) \<Longrightarrow> list_all printable (repr_byte quote c)"
  by (auto simp: repr_byte_def printable_backslash printable_hexdigit_hi printable_hexdigit_lo
        printable_chr) (simp_all add: printable_def)

lemma printable_repr: "list_all printable (bytes_repr d)"
proof -
  have "list_all printable (concat (map (repr_byte (repr_quote d)) ds))" for ds
    by (induction ds) (simp_all add: printable_repr_byte printable_quote)
  then show ?thesis
    by (simp add: bytes_repr_def Let_def printable_quote) (simp add: printable_def)
qed

lemma printable_hex: "list_all printable (bytes_hex d)"
  by (induction d) (simp_all add: bytes_hex_def byte_hex_def printable_hexdigit_hi printable_hexdigit_lo)

lemma printable_received: "list_all printable (received_line d)"
  by (simp add: received_line_def printable_repr printable_hex) (simp add: printable_def)

section \<open>Reading the literal back\<close>

lemma byte_of_chr_inverse: "byte_of_chr (chr_of_byte c) = c"
  using unat_byte [of c] by (simp add: byte_of_chr_def chr_of_byte_def)

lemma chr_of_byte_eq: "chr_of_byte c = x \<longleftrightarrow> c = byte_of_chr x"
proof
  assume "chr_of_byte c = x"
  then show "c = byte_of_chr x" using byte_of_chr_inverse [of c] by simp
next
  assume "c = byte_of_chr x"
  then show "chr_of_byte c = x"
    by (simp add: byte_of_chr_def chr_of_byte_def unat_of_nat)
qed

lemma hi_nibble: "drop_bit 4 (c AND 0xf0 :: byte) = drop_bit 4 c"
proof -
  have m: "(0xf0 :: byte) = push_bit 4 (mask 4)"
    by (simp add: mask_eq_exp_minus_1)
  show ?thesis
    unfolding m
    by (rule bit_word_eqI) (auto simp: bit_simps dest: bit_imp_le_length)
qed

lemma hex_pair:
  "hexval (hexdigit (drop_bit 4 c)) = Some (unat (drop_bit 4 c))"
  "hexval (hexdigit (c AND 0x0f)) = Some (unat (c AND 0x0f))"
  unfolding hexdigit_def
  by (rule hexval_digit, rule hi_less, rule hexval_digit, rule lo_less)

lemma body_escape_x:
  assumes "q \<noteq> CHR 0x5C"
  shows "literal_body q (CHR 0x5C # CHR ''x'' # hexdigit (drop_bit 4 (c AND 0xf0))
                          # hexdigit (c AND 0x0f) # rest)
     = map_option ((#) c) (literal_body q rest)"
proof -
  have "literal_body q (CHR 0x5C # CHR ''x'' # hexdigit (drop_bit 4 c)
                          # hexdigit (c AND 0x0f) # rest)
     = map_option ((#) (word_of_nat (16 * unat (drop_bit 4 c) + unat (c AND 0x0f))))
         (literal_body q rest)"
    using assms by (simp add: hex_pair del: of_nat_add of_nat_mult)
  then show ?thesis
    by (simp only: byte_split hi_nibble)
qed

lemma quote_chars:
  "chr_of_byte squote = CHR 0x27" "chr_of_byte dquote = CHR 0x22"
  "chr_of_byte backslash = CHR 0x5C"
  by code_simp+


lemma byte_of_quote_chars:
  "byte_of_chr (CHR 0x27) = 0x27" "byte_of_chr (CHR 0x22) = 0x22" "byte_of_chr (CHR 0x5C) = 0x5c"
  by (simp_all add: byte_of_chr_def)

lemma body_escape_char:
  "q \<noteq> CHR 0x5C \<Longrightarrow> e = CHR 0x5C \<or> e = CHR 0x27 \<or> e = CHR 0x22 \<Longrightarrow>
   literal_body q (CHR 0x5C # e # rest) = map_option ((#) (byte_of_chr e)) (literal_body q rest)"
  by auto

lemma body_escape_t:
  "q \<noteq> CHR 0x5C \<Longrightarrow>
   literal_body q (CHR 0x5C # CHR ''t'' # rest) = map_option ((#) 0x09) (literal_body q rest)"
  by simp

lemma body_escape_n:
  "q \<noteq> CHR 0x5C \<Longrightarrow>
   literal_body q (CHR 0x5C # CHR ''n'' # rest) = map_option ((#) 0x0a) (literal_body q rest)"
  by simp

lemma body_escape_r:
  "q \<noteq> CHR 0x5C \<Longrightarrow>
   literal_body q (CHR 0x5C # CHR ''r'' # rest) = map_option ((#) 0x0d) (literal_body q rest)"
  by simp

lemma body_plain:
  "c \<noteq> q \<Longrightarrow> c \<noteq> CHR 0x5C \<Longrightarrow> printable c \<Longrightarrow>
   literal_body q (c # rest) = map_option ((#) (byte_of_chr c)) (literal_body q rest)"
  by simp


lemma repr_byte_cases:
  "repr_byte quote c =
     (if c = quote \<or> c = backslash then [CHR 0x5C, chr_of_byte c]
      else if c = 0x09 then [CHR 0x5C, CHR ''t'']
      else if c = 0x0a then [CHR 0x5C, CHR ''n'']
      else if c = 0x0d then [CHR 0x5C, CHR ''r'']
      else if c < 0x20 \<or> c \<ge> 0x7f then
        [CHR 0x5C, CHR ''x'', hexdigit (drop_bit 4 (c AND 0xf0)), hexdigit (c AND 0x0f)]
      else [chr_of_byte c])"
  unfolding repr_byte_def quote_chars ..

lemma body_repr_byte:
  assumes q: "quote = squote \<or> quote = dquote"
  shows "literal_body (chr_of_byte quote) (repr_byte quote c @ rest)
     = map_option ((#) c) (literal_body (chr_of_byte quote) rest)"
proof -
  from q have nb: "chr_of_byte quote \<noteq> CHR 0x5C"
    by (auto simp: quote_chars)
  consider (esc) "c = quote \<or> c = backslash"
    | (tab) "\<not> (c = quote \<or> c = backslash)" "c = 0x09"
    | (nl) "\<not> (c = quote \<or> c = backslash)" "c \<noteq> 0x09" "c = 0x0a"
    | (cr) "\<not> (c = quote \<or> c = backslash)" "c \<noteq> 0x09" "c \<noteq> 0x0a" "c = 0x0d"
    | (hex) "\<not> (c = quote \<or> c = backslash)" "c \<noteq> 0x09" "c \<noteq> 0x0a" "c \<noteq> 0x0d"
        "c < 0x20 \<or> c \<ge> 0x7f"
    | (plain) "\<not> (c = quote \<or> c = backslash)" "c \<noteq> 0x09" "c \<noteq> 0x0a" "c \<noteq> 0x0d"
        "\<not> (c < 0x20 \<or> c \<ge> 0x7f)"
    by blast
  then show ?thesis
  proof cases
    case esc
    then have r: "repr_byte quote c = [CHR 0x5C, chr_of_byte c]"
      by (simp add: repr_byte_cases)
    from esc q have "chr_of_byte c = CHR 0x5C \<or> chr_of_byte c = CHR 0x27 \<or> chr_of_byte c = CHR 0x22"
      by (auto simp: quote_chars)
    from body_escape_char [OF nb this, of rest] show ?thesis
      by (simp only: r append.simps byte_of_chr_inverse)
  next
    case tab
    then have r: "repr_byte quote c = [CHR 0x5C, CHR ''t'']"
      by (simp add: repr_byte_cases)
    show ?thesis
      unfolding r append.simps using body_escape_t [OF nb, of rest] tab(2) by simp
  next
    case nl
    then have r: "repr_byte quote c = [CHR 0x5C, CHR ''n'']"
      by (simp add: repr_byte_cases)
    show ?thesis
      unfolding r append.simps using body_escape_n [OF nb, of rest] nl(3) by simp
  next
    case cr
    then have r: "repr_byte quote c = [CHR 0x5C, CHR ''r'']"
      by (simp add: repr_byte_cases)
    show ?thesis
      unfolding r append.simps using body_escape_r [OF nb, of rest] cr(4) by simp
  next
    case hex
    then have r: "repr_byte quote c = [CHR 0x5C, CHR ''x'', hexdigit (drop_bit 4 (c AND 0xf0)),
        hexdigit (c AND 0x0f)]"
      by (simp add: repr_byte_cases)
    from body_escape_x [OF nb, of c rest] show ?thesis
      by (simp only: r append.simps)
  next
    case plain
    then have r: "repr_byte quote c = [chr_of_byte c]"
      by (simp add: repr_byte_cases)
    from plain(1) have "chr_of_byte c \<noteq> chr_of_byte quote" "chr_of_byte c \<noteq> CHR 0x5C"
      using byte_of_chr_inverse [of c] byte_of_chr_inverse [of quote]
        byte_of_chr_inverse [of backslash]
      by (metis, metis quote_chars(3))
    moreover from plain(5) have "printable (chr_of_byte c)"
      by (rule printable_chr)
    ultimately have "literal_body (chr_of_byte quote) (chr_of_byte c # rest)
        = map_option ((#) (byte_of_chr (chr_of_byte c))) (literal_body (chr_of_byte quote) rest)"
      by (rule body_plain)
    then show ?thesis
      by (simp only: r append.simps byte_of_chr_inverse)
  qed
qed


lemma body_repr:
  assumes q: "quote = squote \<or> quote = dquote"
  shows "literal_body (chr_of_byte quote) (concat (map (repr_byte quote) d) @ [chr_of_byte quote])
     = Some d"
  by (induction d) (simp_all add: body_repr_byte [OF q])

lemma literal_repr: "bytes_literal (bytes_repr d) = Some d"
proof -
  have q: "repr_quote d = squote \<or> repr_quote d = dquote"
    by (simp add: repr_quote_def)
  then have "chr_of_byte (repr_quote d) = CHR 0x27 \<or> chr_of_byte (repr_quote d) = CHR 0x22"
    by (auto simp: quote_chars)
  with body_repr [OF q, of d] show ?thesis
    by (auto simp: bytes_literal_def bytes_repr_def Let_def)
qed

lemma text_field_received: "text_field (received_line d) = bytes_repr d"
proof -
  have split: "received_line d = (''Received: '' @ bytes_hex d @ '' | ASCII: '') @ bytes_repr d"
    by (simp add: received_line_def)
  have len: "length (bytes_hex d) + 20 = length (''Received: '' @ bytes_hex d @ '' | ASCII: '')"
    by simp
  have "drop (length (bytes_hex d) + 20)
      ((''Received: '' @ bytes_hex d @ '' | ASCII: '') @ bytes_repr d) = bytes_repr d"
    unfolding len by (rule append_eq_conv_conj [THEN iffD1, OF refl, THEN conjunct2, symmetric])
  then show ?thesis
    by (simp only: text_field_def hex_field_received split [symmetric])
qed

lemma repr_quote_char:
  "chr_of_byte (repr_quote d) = (if 0x27 \<in> set d \<and> 0x22 \<notin> set d then CHR 0x22 else CHR 0x27)"
  by (simp add: repr_quote_def quote_chars) (simp add: squote_def dquote_def)

lemma repr_byte_forms:
  assumes q: "q = 0x27 \<or> q = 0x22"
  shows "repr_byte q 0x09 = [CHR 0x5C, CHR ''t'']"
    and "repr_byte q 0x0a = [CHR 0x5C, CHR ''n'']"
    and "repr_byte q 0x0d = [CHR 0x5C, CHR ''r'']"
    and "repr_byte q 0x5c = [CHR 0x5C, CHR 0x5C]"
    and "repr_byte q q = [CHR 0x5C, chr_of_byte q]"
    and "(c < 0x20 \<or> 0x7f \<le> c) \<and> c \<noteq> 0x09 \<and> c \<noteq> 0x0a \<and> c \<noteq> 0x0d \<longrightarrow>
           repr_byte q c = [CHR 0x5C, CHR ''x''] @ byte_hex c"
    and "0x20 \<le> c \<and> c < 0x7f \<and> c \<noteq> q \<and> c \<noteq> 0x5c \<longrightarrow> repr_byte q c = [chr_of_byte c]"
proof -
  from q show "repr_byte q 0x09 = [CHR 0x5C, CHR ''t'']"
    by (auto simp: repr_byte_cases backslash_def)
  from q show "repr_byte q 0x0a = [CHR 0x5C, CHR ''n'']"
    by (auto simp: repr_byte_cases backslash_def)
  from q show "repr_byte q 0x0d = [CHR 0x5C, CHR ''r'']"
    by (auto simp: repr_byte_cases backslash_def)
  have "chr_of_byte 0x5c = CHR 0x5C"
    using quote_chars(3) by (simp add: backslash_def)
  then show "repr_byte q 0x5c = [CHR 0x5C, CHR 0x5C]"
    by (simp add: repr_byte_cases backslash_def)
  show "repr_byte q q = [CHR 0x5C, chr_of_byte q]"
    by (simp add: repr_byte_cases)
  from q show "(c < 0x20 \<or> 0x7f \<le> c) \<and> c \<noteq> 0x09 \<and> c \<noteq> 0x0a \<and> c \<noteq> 0x0d \<longrightarrow>
           repr_byte q c = [CHR 0x5C, CHR ''x''] @ byte_hex c"
    by (auto simp: repr_byte_cases backslash_def byte_hex_def hi_nibble simp del: drop_bit_and)
  show "0x20 \<le> c \<and> c < 0x7f \<and> c \<noteq> q \<and> c \<noteq> 0x5c \<longrightarrow> repr_byte q c = [chr_of_byte c]"
    by (auto simp: repr_byte_cases backslash_def)
qed

section \<open>Delivered chunks and printed lines\<close>

text \<open>
  Claim C2. Whatever the device does and however long the window is, the lines of the
  console that begin with "Received: " are the renderings of the chunks the reads
  returned: one line per chunk, in the order of arrival, nothing else. Decoding the
  hexadecimal field of each line gives back the chunk it was printed for.
\<close>

theorem chunks_printed_once_in_order:
  "received_lines (stdout (monitor W e)) = map received_line (delivered (monitor W e))
   \<and> map (\<lambda>line. bytes_fromhex (hex_field line)) (received_lines (stdout (monitor W e)))
       = map Some (delivered (monitor W e))"
  by (simp add: monitor_received hex_field_received fromhex_hex comp_def)

theorem chunks_printed_once_in_order_witness:
  "delivered (monitor 300 (script [burst [0x48, 0x69], silent, burst [0x0a, 0xff]]))
     = [[0x48, 0x69], [0x0a, 0xff]]
   \<and> map (\<lambda>line. bytes_fromhex (hex_field line))
         (received_lines (stdout (monitor 300 (script [burst [0x48, 0x69], silent, burst [0x0a, 0xff]]))))
     = [Some [0x48, 0x69], Some [0x0a, 0xff]]"
proof -
  have d: "delivered (monitor 300 (script [burst [0x48, 0x69], silent, burst [0x0a, 0xff]]))
     = [[0x48, 0x69], [0x0a, 0xff]]"
    by code_simp
  from chunks_printed_once_in_order [of 300 "script [burst [0x48, 0x69], silent, burst [0x0a, 0xff]]"]
  have "map (\<lambda>line. bytes_fromhex (hex_field line))
         (received_lines (stdout (monitor 300 (script [burst [0x48, 0x69], silent, burst [0x0a, 0xff]]))))
     = map Some (delivered (monitor 300 (script [burst [0x48, 0x69], silent, burst [0x0a, 0xff]])))"
    by (rule conjunct2)
  with d show ?thesis
    by (simp only: list.map simp_thms)
qed

section \<open>A port that does not open\<close>

text \<open>
  Claim C3. When \<^verbatim>\<open>serial.Serial(...)\<close> raises, the run ends at once with that error:
  the clock has not moved, no iteration of the loop has started, and nothing at all
  has been printed, so no "Received" line either.
\<close>

theorem open_failure_is_immediate:
  "\<not> open_ok e \<Longrightarrow>
     fst (monitor W e) = Inl DeviceError
     \<and> stdout (monitor W e) = []
     \<and> received_lines (stdout (monitor W e)) = []
     \<and> trace (snd (monitor W e)) = [EvOpen (Inl DeviceError)]
     \<and> clock (snd (monitor W e)) = t0 e
     \<and> polls (snd (monitor W e)) = 0"
  by (simp add: monitor_refused stdout_def received_lines_def)

theorem open_failure_is_immediate_witness:
  "\<not> open_ok ((script [burst [0x48, 0x69]])\<lparr>open_ok := False\<rparr>)
   \<and> fst (main ((script [burst [0x48, 0x69]])\<lparr>open_ok := False\<rparr>)) = Inl DeviceError
   \<and> stdout (main ((script [burst [0x48, 0x69]])\<lparr>open_ok := False\<rparr>)) = []"
  using open_failure_is_immediate [of "(script [burst [0x48, 0x69]])\<lparr>open_ok := False\<rparr>" capture_window]
  by (simp add: main_def)

section \<open>Closing the port\<close>

text \<open>
  Claim C1, as the script has it. The script calls \<^verbatim>\<open>port.close()\<close> as its last
  statement and has no \<^verbatim>\<open>try\<close>/\<^verbatim>\<open>finally\<close> and no \<^verbatim>\<open>with\<close> block. So in a run
  whose port opened, the handle is closed exactly once when the run completes, as the
  last thing the program does, and not at all when a driver call raised after the open.
\<close>

theorem close_once_on_completion:
  "open_ok e \<Longrightarrow>
     closes (trace (snd (monitor W e))) = (if fst (monitor W e) = Inr () then 1 else 0)
     \<and> (fst (monitor W e) = Inr () \<longrightarrow> last (trace (snd (monitor W e))) = EvClose)"
  by (simp add: monitor_closes monitor_last)

theorem close_once_on_completion_witness:
  "open_ok (script [burst [0x48, 0x69], silent])
   \<and> fst (monitor 200 (script [burst [0x48, 0x69], silent])) = Inr ()
   \<and> closes (trace (snd (monitor 200 (script [burst [0x48, 0x69], silent])))) = 1
   \<and> last (trace (snd (monitor 200 (script [burst [0x48, 0x69], silent])))) = EvClose"
proof -
  have o: "open_ok (script [burst [0x48, 0x69], silent])"
    by (simp add: script_def)
  have r: "fst (monitor 200 (script [burst [0x48, 0x69], silent])) = Inr ()"
    by code_simp
  from close_once_on_completion [OF o, of 200] o r show ?thesis
    by simp
qed

text \<open>
  Claim C1 as stated fails: here the port opens, the first read raises, and the run
  ends with the error without having closed the handle.
\<close>

theorem no_close_after_failed_read:
  "open_ok (script [unplugged])
   \<and> fst (main (script [unplugged])) = Inl DeviceError
   \<and> closes (trace (snd (main (script [unplugged])))) = 0"
  by code_simp

section \<open>A silent device\<close>

text \<open>
  Claim C5. When the port opens and no poll ever finds an octet buffered, the run
  completes normally, the console shows the two header lines and the completion
  message, and there is no "Received" line.
\<close>

theorem silent_device_completes:
  "open_ok e \<Longrightarrow> \<forall>i. in_waiting1 (device e i) = Inr 0 \<Longrightarrow>
     fst (monitor W e) = Inr ()
     \<and> received_lines (stdout (monitor W e)) = []
     \<and> stdout (monitor W e) =
         [''Monitoring /dev/ttyUSB0 for 10 seconds...'', ''Waiting for any data...'' @ [CHR 0x0A],
          CHR 0x0A # ''Done'']"
proof -
  assume op: "open_ok e" and quiet: "\<forall>i. in_waiting1 (device e i) = Inr 0"
  define s3 where "s3 = print_py (''Waiting for any data...'' @ [CHR 0x0A])
      (print_py ''Monitoring /dev/ttyUSB0 for 10 seconds...''
        (emit (EvOpen (Inr ())) \<lparr>clock = t0 e, polls = 0, trace = []\<rparr>))"
  obtain r s4 where loop: "capture_loop (rounds_short e) W (device e) (clock s3) s3 = (r, s4)"
    by force
  from loop_silent [OF quiet loop] have r: "r = Inr ()" and c: "chunks (trace s4) = chunks (trace s3)"
    by simp_all
  from op loop r have m: "monitor W e = (Inr (), emit EvClose (print_py (CHR 0x0A # ''Done'') s4))"
    by (simp add: monitor_def s3_def Let_def)
  from c have d: "delivered (monitor W e) = []"
    by (simp add: m delivered_def run_defs chunks_append s3_def)
  from m have ok: "fst (monitor W e) = Inr ()" by simp
  from monitor_stdout [OF op, of W] monitor_received [of W e] d ok show ?thesis
    by simp
qed

theorem silent_device_completes_witness:
  "open_ok (script []) \<and> (\<forall>i. in_waiting1 (device (script []) i) = Inr 0)
   \<and> fst (main (script [])) = Inr ()
   \<and> received_lines (stdout (main (script []))) = []
   \<and> stdout (main (script [])) =
         [''Monitoring /dev/ttyUSB0 for 10 seconds...'', ''Waiting for any data...'' @ [CHR 0x0A],
          CHR 0x0A # ''Done'']"
proof -
  have o: "open_ok (script [])" and q: "\<forall>i. in_waiting1 (device (script []) i) = Inr 0"
    by (simp_all add: script_def silent_def)
  from silent_device_completes [OF o q, of capture_window] o q show ?thesis
    unfolding main_def by blast
qed

section \<open>The output depends on the delivered chunks only\<close>

text \<open>
  Claim C9. Two runs whose reads returned the same chunks in the same order print the
  same "Received" lines, whatever else differs between the two devices: the buffered
  counts they report, how long their reads take, the time on the clock.
\<close>

theorem same_chunks_same_lines:
  "delivered (monitor W e1) = delivered (monitor W e2) \<Longrightarrow>
     received_lines (stdout (monitor W e1)) = received_lines (stdout (monitor W e2))"
  by (simp add: monitor_received)

theorem same_chunks_same_lines_witness:
  "delivered (monitor 300 (script [burst [0x48, 0x69], silent, burst [0x0a]]))
     = delivered (monitor 300 ((script [silent, racing [0x48, 0x69], racing [0x0a]])\<lparr>t0 := 77\<rparr>))
   \<and> received_lines (stdout (monitor 300 (script [burst [0x48, 0x69], silent, burst [0x0a]])))
     = received_lines (stdout (monitor 300 ((script [silent, racing [0x48, 0x69], racing [0x0a]])\<lparr>t0 := 77\<rparr>)))"
proof -
  have d: "delivered (monitor 300 (script [burst [0x48, 0x69], silent, burst [0x0a]]))
     = delivered (monitor 300 ((script [silent, racing [0x48, 0x69], racing [0x0a]])\<lparr>t0 := 77\<rparr>))"
    by code_simp
  from same_chunks_same_lines [OF d] d show ?thesis
    by (rule_tac conjI)
qed

section \<open>The printed line\<close>

text \<open>
  Claim C7, as the script has it. The line printed for a chunk is one line. After the
  prefix it holds two lowercase hexadecimal digits per octet, which decode to the
  chunk, and after the separator the Python literal of the same octets, which reads
  back as the chunk. The literal is \<^verbatim>\<open>b\<close> and the octets between two quotes: single
  quotes, or double quotes when the chunk holds a single quote and no double quote. In
  it the tab, the line feed and the carriage return are written \<^verbatim>\<open>\t\<close>, \<^verbatim>\<open>\n\<close>
  and \<^verbatim>\<open>\r\<close>, the backslash and the delimiting quote are written after a
  backslash, every other octet below 20 or above 7E (hexadecimal) is written
  \<^verbatim>\<open>\x\<close> and its two hexadecimal digits, and every other octet stands for itself.
  So the whole line consists of printable ASCII characters and holds no line break.
\<close>

theorem line_is_hex_and_escaped_literal:
  "is_received (received_line data)
   \<and> hex_field (received_line data) = bytes_hex data
   \<and> length (bytes_hex data) = 2 * length data
   \<and> set (bytes_hex data) \<subseteq> set ''0123456789abcdef''
   \<and> bytes_fromhex (hex_field (received_line data)) = Some data
   \<and> text_field (received_line data) = bytes_repr data
   \<and> bytes_literal (text_field (received_line data)) = Some data
   \<and> (\<exists>q. (q = 0x27 \<or> q = 0x22)
         \<and> chr_of_byte q = (if 0x27 \<in> set data \<and> 0x22 \<notin> set data then CHR 0x22 else CHR 0x27)
         \<and> bytes_repr data = [CHR ''b'', chr_of_byte q] @ concat (map (repr_byte q) data) @ [chr_of_byte q]
         \<and> repr_byte q 0x09 = [CHR 0x5C, CHR ''t'']
         \<and> repr_byte q 0x0a = [CHR 0x5C, CHR ''n'']
         \<and> repr_byte q 0x0d = [CHR 0x5C, CHR ''r'']
         \<and> repr_byte q 0x5c = [CHR 0x5C, CHR 0x5C]
         \<and> repr_byte q q = [CHR 0x5C, chr_of_byte q]
         \<and> (\<forall>c. (c < 0x20 \<or> 0x7f \<le> c) \<and> c \<noteq> 0x09 \<and> c \<noteq> 0x0a \<and> c \<noteq> 0x0d \<longrightarrow>
                 repr_byte q c = [CHR 0x5C, CHR ''x''] @ byte_hex c)
         \<and> (\<forall>c. 0x20 \<le> c \<and> c < 0x7f \<and> c \<noteq> q \<and> c \<noteq> 0x5c \<longrightarrow>
                 repr_byte q c = [chr_of_byte c]))
   \<and> list_all printable (received_line data)
   \<and> CHR 0x0A \<notin> set (received_line data)"
proof -
  have "\<not> printable (CHR 0x0A)" by (simp add: printable_def)
  with printable_received [of data] have nl: "CHR 0x0A \<notin> set (received_line data)"
    by (auto simp: list_all_iff)
  from hex_digits [of data] have lower: "set (bytes_hex data) \<subseteq> set ''0123456789abcdef''"
    by (simp only: Py_hexdigits_def)
  have q: "repr_quote data = 0x27 \<or> repr_quote data = 0x22"
    by (simp add: repr_quote_def squote_def dquote_def)
  have lit: "bytes_repr data = [CHR ''b'', chr_of_byte (repr_quote data)]
      @ concat (map (repr_byte (repr_quote data)) data) @ [chr_of_byte (repr_quote data)]"
    by (simp add: bytes_repr_def Let_def)
  have "\<exists>q. (q = 0x27 \<or> q = 0x22)
         \<and> chr_of_byte q = (if 0x27 \<in> set data \<and> 0x22 \<notin> set data then CHR 0x22 else CHR 0x27)
         \<and> bytes_repr data = [CHR ''b'', chr_of_byte q] @ concat (map (repr_byte q) data) @ [chr_of_byte q]
         \<and> repr_byte q 0x09 = [CHR 0x5C, CHR ''t'']
         \<and> repr_byte q 0x0a = [CHR 0x5C, CHR ''n'']
         \<and> repr_byte q 0x0d = [CHR 0x5C, CHR ''r'']
         \<and> repr_byte q 0x5c = [CHR 0x5C, CHR 0x5C]
         \<and> repr_byte q q = [CHR 0x5C, chr_of_byte q]
         \<and> (\<forall>c. (c < 0x20 \<or> 0x7f \<le> c) \<and> c \<noteq> 0x09 \<and> c \<noteq> 0x0a \<and> c \<noteq> 0x0d \<longrightarrow>
                 repr_byte q c = [CHR 0x5C, CHR ''x''] @ byte_hex c)
         \<and> (\<forall>c. 0x20 \<le> c \<and> c < 0x7f \<and> c \<noteq> q \<and> c \<noteq> 0x5c \<longrightarrow>
                 repr_byte q c = [chr_of_byte c])"
    using q repr_quote_char [of data] lit repr_byte_forms [OF q]
    by (intro exI [of _ "repr_quote data"] conjI allI) assumption+
  with nl lower is_received_line [of data] hex_field_received [of data] hex_length [of data]
    fromhex_hex [of data] text_field_received [of data] literal_repr [of data]
    printable_received [of data]
  show ?thesis
    by (simp only: simp_thms)
qed

theorem line_is_hex_and_escaped_literal_witness:
  "received_line [0x69, 0x74, 0x27, 0x73, 0x0a, 0xff] =
     ''Received: 697427730aff | ASCII: b'' @ [CHR 0x22] @ ''it'' @ [CHR 0x27] @ ''s''
       @ [CHR 0x5C] @ ''n'' @ [CHR 0x5C] @ ''xff'' @ [CHR 0x22]
   \<and> bytes_literal (text_field (received_line [0x69, 0x74, 0x27, 0x73, 0x0a, 0xff]))
       = Some [0x69, 0x74, 0x27, 0x73, 0x0a, 0xff]
   \<and> bytes_fromhex (hex_field (received_line [0x69, 0x74, 0x27, 0x73, 0x0a, 0xff]))
       = Some [0x69, 0x74, 0x27, 0x73, 0x0a, 0xff]
   \<and> list_all printable (received_line [0x69, 0x74, 0x27, 0x73, 0x0a, 0xff])"
proof -
  have "received_line [0x69, 0x74, 0x27, 0x73, 0x0a, 0xff] =
     ''Received: 697427730aff | ASCII: b'' @ [CHR 0x22] @ ''it'' @ [CHR 0x27] @ ''s''
       @ [CHR 0x5C] @ ''n'' @ [CHR 0x5C] @ ''xff'' @ [CHR 0x22]"
    by code_simp
  with line_is_hex_and_escaped_literal [of "[0x69, 0x74, 0x27, 0x73, 0x0a, 0xff]"] show ?thesis
    by blast
qed

text \<open>
  Claim C7 as stated fails: the textual rendering is not the raw octets. The chunk of
  the two octets 01 and 0A is printed with the eight characters \<^verbatim>\<open>\x01\n\<close> between
  the quotes, and neither octet appears in the line as a character.
\<close>

theorem unprintable_octets_are_escaped:
  "received_line [0x01, 0x0a] =
     ''Received: 010a | ASCII: b'' @ [CHR 0x27, CHR 0x5C, CHR ''x'', CHR ''0'', CHR ''1'', CHR 0x5C, CHR ''n'', CHR 0x27]
   \<and> CHR 0x01 \<notin> set (received_line [0x01, 0x0a])
   \<and> CHR 0x0A \<notin> set (received_line [0x01, 0x0a])"
  by code_simp

section \<open>The pause between polls\<close>

text \<open>
  Claim C8. An iteration of the loop that is not cut short by a raising driver call
  ends with one pause of 100 ms, whether it read a chunk or not: the pause is the last
  thing the iteration does, it is the only pause of the iteration, and the clock has
  moved by at least 100 ms. Over a whole run that completes, there are as many pauses
  as iterations, and no run ever pauses for any other length of time.
\<close>

theorem sleep_after_every_poll:
  "(poll dev s = (Inr (), s') \<longrightarrow>
      last (trace s') = EvSleep 100 \<and> sleeps (trace s') = sleeps (trace s) @ [100]
      \<and> clock s + 100 \<le> clock s')
   \<and> (fst (monitor W e) = Inr () \<longrightarrow>
        sleeps (trace (snd (monitor W e))) = replicate (polls (snd (monitor W e))) 100)
   \<and> set (sleeps (trace (snd (monitor W e)))) \<subseteq> {100}"
proof (intro conjI impI)
  assume p: "poll dev s = (Inr (), s')"
  from poll_last_sleep [OF p] show "last (trace s') = EvSleep 100" .
  from poll_sleeps [OF p] show "sleeps (trace s') = sleeps (trace s) @ [100]" by simp
  from poll_clock [OF p] show "clock s + 100 \<le> clock s'" by (simp add: poll_interval_def)
next
  assume "fst (monitor W e) = Inr ()"
  with monitor_sleeps [of W e] show
    "sleeps (trace (snd (monitor W e))) = replicate (polls (snd (monitor W e))) 100"
    by auto
next
  from monitor_sleeps [of W e] show "set (sleeps (trace (snd (monitor W e)))) \<subseteq> {100}"
    by auto
qed

theorem sleep_after_every_poll_witness:
  "poll (\<lambda>i. burst [0x48]) \<lparr>clock = 0, polls = 0, trace = []\<rparr>
     = (Inr (), \<lparr>clock = 100, polls = 1,
          trace = [EvInWaiting (Inr 1), EvInWaiting (Inr 1), EvRead 1 (Inr [0x48]),
                   EvPrint (received_line [0x48]), EvSleep 100]\<rparr>)
   \<and> sleeps [EvInWaiting (Inr 1), EvInWaiting (Inr 1), EvRead 1 (Inr [0x48]),
                   EvPrint (received_line [0x48]), EvSleep 100] = [] @ [100]
   \<and> fst (monitor 200 (script [burst [0x48], silent])) = Inr ()
   \<and> sleeps (trace (snd (monitor 200 (script [burst [0x48], silent])))) = replicate 2 100"
proof -
  have p: "poll (\<lambda>i. burst [0x48]) \<lparr>clock = 0, polls = 0, trace = []\<rparr>
     = (Inr (), \<lparr>clock = 100, polls = 1,
          trace = [EvInWaiting (Inr 1), EvInWaiting (Inr 1), EvRead 1 (Inr [0x48]),
                   EvPrint (received_line [0x48]), EvSleep 100]\<rparr>)"
    by (simp add: poll_def burst_def run_defs poll_interval_def read_timeout_def)
  have ok: "fst (monitor 200 (script [burst [0x48], silent])) = Inr ()"
    by code_simp
  have n: "polls (snd (monitor 200 (script [burst [0x48], silent]))) = 2"
    by code_simp
  from sleep_after_every_poll [of "\<lambda>i. burst [0x48]" "\<lparr>clock = 0, polls = 0, trace = []\<rparr>"
      "\<lparr>clock = 100, polls = 1,
          trace = [EvInWaiting (Inr 1), EvInWaiting (Inr 1), EvRead 1 (Inr [0x48]),
                   EvPrint (received_line [0x48]), EvSleep 100]\<rparr>" 200 "script [burst [0x48], silent]"]
    p ok n
  show ?thesis by simp
qed

section \<open>Query, then read what is available\<close>

text \<open>
  Claim C6. Every iteration begins by asking the driver how many octets are buffered.
  When the driver answers its queries, the iteration performs a read exactly when that
  count is positive, and then one read only: it asks for the number of octets buffered
  at that moment, which it learns from a second query, and the chunk is what the
  device hands over, up to that number. No fixed count is waited for.
\<close>

theorem poll_queries_then_reads_available:
  "poll dev s = (r, s') \<Longrightarrow>
     take (Suc (length (trace s))) (trace s') = trace s @ [EvInWaiting (in_waiting1 (dev (polls s)))]
     \<and> (\<forall>n m. in_waiting1 (dev (polls s)) = Inr n \<and> in_waiting2 (dev (polls s)) = Inr m \<longrightarrow>
           requests (trace s') = requests (trace s) @ (if 0 < n then [m] else [])
           \<and> (\<forall>bs. read_result (dev (polls s)) = Inr bs \<longrightarrow>
                 chunks (trace s') = chunks (trace s) @ (if 0 < n then [take m bs] else [])))"
proof (intro conjI allI impI)
  assume p: "poll dev s = (r, s')"
  from poll_first_query [OF p] show
    "take (Suc (length (trace s))) (trace s') = trace s @ [EvInWaiting (in_waiting1 (dev (polls s)))]" .
  fix n m
  assume q: "in_waiting1 (dev (polls s)) = Inr n \<and> in_waiting2 (dev (polls s)) = Inr m"
  with poll_reads [OF p, of n m] show
    "requests (trace s') = requests (trace s) @ (if 0 < n then [m] else [])"
    by simp
  fix bs
  assume "read_result (dev (polls s)) = Inr bs"
  with q poll_reads [OF p, of n m] show
    "chunks (trace s') = chunks (trace s) @ (if 0 < n then [take m bs] else [])"
    by simp
qed

theorem poll_queries_then_reads_available_witness:
  "poll (\<lambda>i. burst [0x48, 0x69]) \<lparr>clock = 0, polls = 0, trace = []\<rparr>
     = (Inr (), \<lparr>clock = 100, polls = 1,
          trace = [EvInWaiting (Inr 2), EvInWaiting (Inr 2), EvRead 2 (Inr [0x48, 0x69]),
                   EvPrint (received_line [0x48, 0x69]), EvSleep 100]\<rparr>)
   \<and> requests [EvInWaiting (Inr 2), EvInWaiting (Inr 2), EvRead 2 (Inr [0x48, 0x69]),
                   EvPrint (received_line [0x48, 0x69]), EvSleep 100] = [2]
   \<and> chunks [EvInWaiting (Inr 2), EvInWaiting (Inr 2), EvRead 2 (Inr [0x48, 0x69]),
                   EvPrint (received_line [0x48, 0x69]), EvSleep 100] = [[0x48, 0x69]]"
proof -
  have p: "poll (\<lambda>i. burst [0x48, 0x69]) \<lparr>clock = 0, polls = 0, trace = []\<rparr>
     = (Inr (), \<lparr>clock = 100, polls = 1,
          trace = [EvInWaiting (Inr 2), EvInWaiting (Inr 2), EvRead 2 (Inr [0x48, 0x69]),
                   EvPrint (received_line [0x48, 0x69]), EvSleep 100]\<rparr>)"
    by (simp add: poll_def burst_def run_defs poll_interval_def read_timeout_def)
  from poll_queries_then_reads_available [OF p] p show ?thesis
    by (simp add: burst_def)
qed

section \<open>The size of a read and of a chunk\<close>

text \<open>
  Claim C10, as the script has it. A read is requested only in an iteration whose
  tested count is positive, and it asks for the count that a second query returns. A
  printed chunk is the beginning of what the device hands over, cut at that second
  count. On a device all of whose ticks are faithful every printed chunk is non-empty.
\<close>

theorem read_requests_second_count:
  "(poll dev s = (r, s') \<longrightarrow>
      (requests (trace s') = requests (trace s)
       \<or> (\<exists>n m. in_waiting1 (dev (polls s)) = Inr n \<and> 0 < n \<and> in_waiting2 (dev (polls s)) = Inr m
             \<and> requests (trace s') = requests (trace s) @ [m]))
      \<and> (chunks (trace s') = chunks (trace s)
          \<or> (\<exists>m bs. in_waiting2 (dev (polls s)) = Inr m \<and> read_result (dev (polls s)) = Inr bs
                \<and> chunks (trace s') = chunks (trace s) @ [take m bs]
                \<and> printed (trace s') = printed (trace s) @ [received_line (take m bs)])))
   \<and> ((\<forall>i. faithful (device e i)) \<longrightarrow> [] \<notin> set (delivered (monitor W e)))"
  using poll_requests [of dev s r s'] poll_chunks [of dev s r s'] monitor_nonempty [of e W]
  by blast

theorem read_requests_second_count_witness:
  "delivered (monitor 200 (script [racing [1, 2, 3]])) = [[1, 2, 3]]
   \<and> [] \<notin> set (delivered (monitor 200 (script [racing [1, 2, 3]])))"
proof -
  have f: "\<forall>i. faithful (device (script [racing [1, 2, 3]]) i)"
    by (simp add: script_def faithful_def racing_def silent_def)
  have d: "delivered (monitor 200 (script [racing [1, 2, 3]])) = [[1, 2, 3]]"
    by code_simp
  from read_requests_second_count [of "device (script [racing [1, 2, 3]])" "opened (script [racing [1, 2, 3]])"
       "fst (poll (device (script [racing [1, 2, 3]])) (opened (script [racing [1, 2, 3]])))"
       "snd (poll (device (script [racing [1, 2, 3]])) (opened (script [racing [1, 2, 3]])))"
       "script [racing [1, 2, 3]]" 200] f
  have "[] \<notin> set (delivered (monitor 200 (script [racing [1, 2, 3]])))"
    by blast
  with d show ?thesis by (simp only: simp_thms)
qed

text \<open>
  Claim C10 as stated fails twice. When more octets arrive between the test and the
  read, the read asks for three octets although the tested count was one. When the
  driver reports two octets and hands none over before the read times out, the
  chunk that is printed is empty.
\<close>

theorem requested_count_differs_and_chunk_empty:
  "in_waiting1 (device (script [racing [1, 2, 3]]) 0) = Inr 1
   \<and> requests (trace (snd (main (script [racing [1, 2, 3]])))) = [3]
   \<and> in_waiting1 (device (script [stale 2]) 0) = Inr 2
   \<and> delivered (main (script [stale 2])) = [[]]
   \<and> received_lines (stdout (main (script [stale 2])))
       = [''Received:  | ASCII: b'' @ [CHR 0x27, CHR 0x27]]"
  by code_simp

section \<open>How long a run takes\<close>

text \<open>
  Claim C4, as the script has it. The loop is a total function: the clock moves by at
  least one pause per iteration, so every run ends. The last iteration starts when at
  most the window \<open>W\<close> has elapsed, and it consists of at most one read, which may
  wait as long as the timeout the port was opened with, and one pause. So a run ends
  no later than \<open>W\<close> plus the read timeout plus one pause after it started; when no
  read waits, it ends no later than \<open>W\<close> plus one pause after it started; and a run
  that completes has lasted at least \<open>W\<close>. When no floating-point comparison comes
  out short, the two bounds are strict. Time is counted in whole milliseconds, a
  pause lasts exactly 100 ms, and queries and prints take no time.
\<close>

theorem run_ends_within_window_timeout_and_pause:
  "0 \<le> W \<Longrightarrow>
     clock (snd (monitor W e)) - t0 e \<le> W + int poll_interval + int read_timeout
     \<and> ((\<forall>i. read_ms (device e i) = 0) \<longrightarrow>
          clock (snd (monitor W e)) - t0 e \<le> W + int poll_interval)
     \<and> ((\<forall>start now. \<not> rounds_short e start now) \<longrightarrow>
          clock (snd (monitor W e)) - t0 e < W + int poll_interval + int read_timeout
          \<and> ((\<forall>i. read_ms (device e i) = 0) \<longrightarrow>
               clock (snd (monitor W e)) - t0 e < W + int poll_interval))
     \<and> (fst (monitor W e) = Inr () \<longrightarrow> W \<le> clock (snd (monitor W e)) - t0 e)"
proof (intro conjI impI)
  assume W: "0 \<le> W"
  have any: "\<forall>i. min (read_ms (device e i)) read_timeout \<le> read_timeout"
    by simp
  have L: "\<forall>now. in_window (rounds_short e) W (t0 e) now \<longrightarrow> now - t0 e \<le> W"
    by (auto simp: in_window_def)
  from monitor_clock [OF any L] W show
    "clock (snd (monitor W e)) - t0 e \<le> W + int poll_interval + int read_timeout"
    by (simp add: poll_interval_def)
  {
    assume ok: "fst (monitor W e) = Inr ()"
    then have "open_ok e"
      using monitor_refused [of e W] by (cases "open_ok e") simp_all
    with ok monitor_clock [OF any L] W
    show "W \<le> clock (snd (monitor W e)) - t0 e" by simp
  }
  {
    assume "\<forall>i. read_ms (device e i) = 0"
    then have "\<forall>i. min (read_ms (device e i)) read_timeout \<le> 0"
      by simp
    from monitor_clock [OF this L] W show
      "clock (snd (monitor W e)) - t0 e \<le> W + int poll_interval"
      by (simp add: poll_interval_def)
  }
  assume "\<forall>start now. \<not> rounds_short e start now"
  then have L': "\<forall>now. in_window (rounds_short e) W (t0 e) now \<longrightarrow> now - t0 e \<le> W - 1"
    by (auto simp: in_window_def)
  from monitor_clock [OF any L'] W show
    "clock (snd (monitor W e)) - t0 e < W + int poll_interval + int read_timeout"
    by (simp add: poll_interval_def)
  assume "\<forall>i. read_ms (device e i) = 0"
  then have "\<forall>i. min (read_ms (device e i)) read_timeout \<le> 0"
    by simp
  from monitor_clock [OF this L'] W show
    "clock (snd (monitor W e)) - t0 e < W + int poll_interval"
    by (simp add: poll_interval_def)
qed

theorem run_ends_within_window_timeout_and_pause_witness:
  "clock (snd (main late_start)) - t0 late_start = 10100
   \<and> polls (snd (main late_start)) = 101
   \<and> clock (snd (main late_start)) - t0 late_start \<le> capture_window + int poll_interval"
proof -
  have W: "0 \<le> capture_window"
    by (simp add: capture_window_def)
  have q: "\<forall>i. read_ms (device late_start i) = 0"
    by (simp add: late_start_def script_def silent_def)
  have c: "clock (snd (main late_start)) - t0 late_start = 10100"
    by code_simp
  have n: "polls (snd (main late_start)) = 101"
    by code_simp
  from run_ends_within_window_timeout_and_pause [OF W, of late_start] q
  have "clock (snd (main late_start)) - t0 late_start \<le> capture_window + int poll_interval"
    unfolding main_def by blast
  with c n show ?thesis by (simp only: simp_thms)
qed

text \<open>
  Claim C4 as stated fails: when the read of the last iteration waits until its
  timeout, the run of the ten-second window ends twelve seconds after it started.
\<close>

theorem blocked_read_overruns_window:
  "clock (snd (main (script (replicate 99 silent @ [stale 2]))))
     - t0 (script (replicate 99 silent @ [stale 2])) = 12000
   \<and> \<not> clock (snd (main (script (replicate 99 silent @ [stale 2]))))
         - t0 (script (replicate 99 silent @ [stale 2])) \<le> capture_window + int poll_interval"
  by code_simp

end
